theory Spec2Isabelle
  imports Main
begin

section \<open>Data model\<close>

text \<open>
  The engine works on pointers to \<open>State\<close> values. A pointer is an optional address
  (\<open>None\<close> is Go's \<open>nil\<close>); the heap maps every address to the \<open>State\<close> stored there
  and is never written by the engine. Two pointers are equal when they hold the same
  address, whatever the contents of the states.

  Actions and predicates are Go closures without arguments. What they close over is
  the world \<open>'w\<close>; they may also read (never write) the engine's current-state pointer,
  which is handed to them at each call. A predicate returns its verdict and the world
  it leaves behind, so a predicate with a side effect is an ordinary predicate.
  Closures are total: a nil func value, a closure that panics and a closure that does
  not return are left out, and so is a closure that writes to a \<open>State\<close> or to the
  engine.
\<close>

type_synonym addr = nat
type_synonym ptr = "addr option"
type_synonym StateName = string

type_synonym 'w Predicate = "ptr \<Rightarrow> 'w \<Rightarrow> bool \<times> 'w"
type_synonym 'w Action = "ptr \<Rightarrow> 'w \<Rightarrow> 'w"

definition MaxStates :: nat where
  "MaxStates = 10"

record 'w State =
  Name :: StateName
  Entry :: "'w Action list"
  Exit :: "'w Action list"
  Handle :: "'w Action list"
  ParentState :: ptr

record 'w Transition =
  CurrentState :: ptr
  Event :: "'w Predicate"
  Guards :: "'w Predicate list"
  Actions :: "'w Action list"
  NextState :: ptr

record 'w HierarchicalStateMachine =
  CurrentState :: ptr
  states :: "'w State list"
  transitions :: "'w Transition list"

type_synonym 'w heap = "addr \<Rightarrow> 'w State"

text \<open>
  The memory a call runs in: the engine object and the world of the closures.
\<close>

type_synonym 'w memory = "'w HierarchicalStateMachine \<times> 'w"

text \<open>
  Go panics are values. A function that may also run forever returns an \<open>option\<close>
  around its result, \<open>None\<close> standing for a call that never returns.
\<close>

datatype panic = IndexOutOfRange | NilDereference

datatype 'a result = Panic panic | Ok 'a

datatype error = Errorf (message: string)

section \<open>Calling closures\<close>

definition call :: "'w Action \<Rightarrow> 'w memory \<Rightarrow> 'w memory" where
  "call action m = (fst m, action (CurrentState (fst m)) (snd m))"

definition test :: "'w Predicate \<Rightarrow> 'w memory \<Rightarrow> bool \<times> 'w memory" where
  "test p m = (case p (CurrentState (fst m)) (snd m) of (b, w) \<Rightarrow> (b, (fst m, w)))"

section \<open>Formatting the error\<close>

definition digit :: "nat \<Rightarrow> char" where
  "digit d = ''0123456789'' ! d"

fun format_d :: "nat \<Rightarrow> string" where
  "format_d n = (if n < 10 then [digit n] else format_d (n div 10) @ [digit (n mod 10)])"

declare format_d.simps [simp del]

text \<open>
  Reading a decimal numeral back, to show that the rendering loses nothing.
\<close>

definition digit_value :: "char \<Rightarrow> nat" where
  "digit_value c = of_char c - 48"

definition parse_d :: "string \<Rightarrow> nat" where
  "parse_d s = foldl (\<lambda>n c. 10 * n + digit_value c) 0 s"

section \<open>The engine\<close>

fun executeActions :: "'w Action list \<Rightarrow> 'w memory \<Rightarrow> 'w memory" where
  "executeActions [] m = m"
| "executeActions (action # actions) m = executeActions actions (call action m)"

text \<open>
  \<open>executeActionsInHierarchy\<close> recurses on the parent first. On a cyclic parent chain
  the recursion never returns.
\<close>

partial_function (option) executeActionsInHierarchy ::
  "'w heap \<Rightarrow> ptr \<Rightarrow> ('w State \<Rightarrow> 'w Action list) \<Rightarrow> 'w memory \<Rightarrow> 'w memory option" where
  "executeActionsInHierarchy h state actions m =
     (case state of
        None \<Rightarrow> Some m
      | Some a \<Rightarrow>
          Option.bind (executeActionsInHierarchy h (ParentState (h a)) actions m)
            (\<lambda>m'. Some (executeActions (actions (h a)) m')))"

definition NewHierarchicalStateMachine ::
  "'w heap \<Rightarrow> ptr \<Rightarrow> 'w State list \<Rightarrow> 'w Transition list \<Rightarrow> 'w \<Rightarrow>
     ((error + 'w HierarchicalStateMachine) \<times> 'w) option" where
  "NewHierarchicalStateMachine h initialState sts trs w =
     (if length sts > MaxStates then
        Some (Inl (Errorf (''too many states declared: '' @ format_d (length sts) @
                           ''. max allowed is '' @ format_d MaxStates)), w)
      else
        (let sm = \<lparr>CurrentState = initialState, states = sts, transitions = trs\<rparr> in
         case executeActionsInHierarchy h (CurrentState sm) Entry (sm, w) of
           None \<Rightarrow> None
         | Some m \<Rightarrow> Some (Inr (fst m), snd m)))"

text \<open>
  \<open>findCommonAncestor\<close> has three loops. The first stores the chain of \<open>state1\<close> in
  the array \<open>visited\<close> of \<open>MaxStates\<close> pointers; a store at an index outside the array
  panics, so this loop always ends. The inner loop looks \<open>state2\<close> up among the first
  \<open>visitedCount\<close> entries. The outer loop walks the chain of \<open>state2\<close> and may run for
  ever on a cyclic chain.
\<close>

function findCommonAncestor_visit ::
  "'w heap \<Rightarrow> ptr \<Rightarrow> ptr list \<Rightarrow> nat \<Rightarrow> (ptr list \<times> nat) result" where
  "findCommonAncestor_visit h state1 visited visitedCount =
     (case state1 of
        None \<Rightarrow> Ok (visited, visitedCount)
      | Some a \<Rightarrow>
          if visitedCount < length visited then
            findCommonAncestor_visit h (ParentState (h a))
              (visited[visitedCount := state1]) (Suc visitedCount)
          else Panic IndexOutOfRange)"
  by pat_completeness auto
termination
  by (relation "measure (\<lambda>(h, state1, visited, visitedCount). length visited - visitedCount)")
    auto

declare findCommonAncestor_visit.simps [simp del]

function findCommonAncestor_member :: "ptr \<Rightarrow> ptr list \<Rightarrow> nat \<Rightarrow> nat \<Rightarrow> bool result" where
  "findCommonAncestor_member state2 visited visitedCount i =
     (if i < visitedCount then
        (if i < length visited then
           (if state2 = visited ! i then Ok True
            else findCommonAncestor_member state2 visited visitedCount (Suc i))
         else Panic IndexOutOfRange)
      else Ok False)"
  by pat_completeness auto
termination
  by (relation "measure (\<lambda>(state2, visited, visitedCount, i). visitedCount - i)") auto

declare findCommonAncestor_member.simps [simp del]

partial_function (option) findCommonAncestor_walk ::
  "'w heap \<Rightarrow> ptr \<Rightarrow> ptr list \<Rightarrow> nat \<Rightarrow> ptr result option" where
  "findCommonAncestor_walk h state2 visited visitedCount =
     (case state2 of
        None \<Rightarrow> Some (Ok None)
      | Some b \<Rightarrow>
          (case findCommonAncestor_member state2 visited visitedCount 0 of
             Panic e \<Rightarrow> Some (Panic e)
           | Ok found \<Rightarrow>
               if found then Some (Ok state2)
               else findCommonAncestor_walk h (ParentState (h b)) visited visitedCount))"

definition findCommonAncestor :: "'w heap \<Rightarrow> ptr \<Rightarrow> ptr \<Rightarrow> ptr result option" where
  "findCommonAncestor h state1 state2 =
     (case findCommonAncestor_visit h state1 (replicate MaxStates None) 0 of
        Panic e \<Rightarrow> Some (Panic e)
      | Ok (visited, visitedCount) \<Rightarrow> findCommonAncestor_walk h state2 visited visitedCount)"

text \<open>
  \<open>exitToCommonAncestor\<close> reads \<open>state.Exit\<close> without a nil check: it panics when the
  walk reaches nil before it reaches \<open>commonAncestor\<close>.
\<close>

partial_function (option) exitToCommonAncestor ::
  "'w heap \<Rightarrow> ptr \<Rightarrow> ptr \<Rightarrow> 'w memory \<Rightarrow> 'w memory result option" where
  "exitToCommonAncestor h state commonAncestor m =
     (if state \<noteq> commonAncestor then
        (case state of
           None \<Rightarrow> Some (Panic NilDereference)
         | Some a \<Rightarrow>
             exitToCommonAncestor h (ParentState (h a)) commonAncestor
               (executeActions (Exit (h a)) m))
      else Some (Ok m))"

text \<open>
  \<open>enterFromCommonAncestor\<close> first pushes the chain of \<open>state\<close> below \<open>commonAncestor\<close>
  on the array \<open>stack\<close> (the store is checked before \<open>state.ParentState\<close> is read),
  then runs the entry actions from the top of the stack down. The second loop counts
  \<open>i\<close> from \<open>stackCount - 1\<close> down to \<open>0\<close>; its model counts \<open>i + 1\<close>.
\<close>

function enterFromCommonAncestor_push ::
  "'w heap \<Rightarrow> ptr \<Rightarrow> ptr \<Rightarrow> ptr list \<Rightarrow> nat \<Rightarrow> (ptr list \<times> nat) result" where
  "enterFromCommonAncestor_push h state commonAncestor stack stackCount =
     (if state \<noteq> commonAncestor then
        (if stackCount < length stack then
           (case state of
              None \<Rightarrow> Panic NilDereference
            | Some a \<Rightarrow>
                enterFromCommonAncestor_push h (ParentState (h a)) commonAncestor
                  (stack[stackCount := state]) (Suc stackCount))
         else Panic IndexOutOfRange)
      else Ok (stack, stackCount))"
  by pat_completeness auto
termination
  by (relation "measure (\<lambda>(h, state, commonAncestor, stack, stackCount).
        length stack - stackCount)") auto

declare enterFromCommonAncestor_push.simps [simp del]

fun enterFromCommonAncestor_pop ::
  "'w heap \<Rightarrow> ptr list \<Rightarrow> nat \<Rightarrow> 'w memory \<Rightarrow> 'w memory result" where
  "enterFromCommonAncestor_pop h stack 0 m = Ok m"
| "enterFromCommonAncestor_pop h stack (Suc i) m =
     (if i < length stack then
        (case stack ! i of
           None \<Rightarrow> Panic NilDereference
         | Some a \<Rightarrow> enterFromCommonAncestor_pop h stack i (executeActions (Entry (h a)) m))
      else Panic IndexOutOfRange)"

definition enterFromCommonAncestor ::
  "'w heap \<Rightarrow> ptr \<Rightarrow> ptr \<Rightarrow> 'w memory \<Rightarrow> 'w memory result" where
  "enterFromCommonAncestor h state commonAncestor m =
     (case enterFromCommonAncestor_push h state commonAncestor (replicate MaxStates None) 0 of
        Panic e \<Rightarrow> Panic e
      | Ok (stack, stackCount) \<Rightarrow> enterFromCommonAncestor_pop h stack stackCount m)"

definition executeTransitionActions ::
  "'w heap \<Rightarrow> 'w Transition \<Rightarrow> 'w memory \<Rightarrow> 'w memory result option" where
  "executeTransitionActions h transition m =
     (case findCommonAncestor h (Transition.CurrentState transition) (NextState transition) of
        None \<Rightarrow> None
      | Some (Panic e) \<Rightarrow> Some (Panic e)
      | Some (Ok commonAncestor) \<Rightarrow>
          (case exitToCommonAncestor h (Transition.CurrentState transition) commonAncestor m of
             None \<Rightarrow> None
           | Some (Panic e) \<Rightarrow> Some (Panic e)
           | Some (Ok m1) \<Rightarrow>
               Some (enterFromCommonAncestor h (NextState transition) commonAncestor
                       (executeActions (Actions transition) m1))))"

text \<open>
  The guard loop of \<open>HandleStateMachine\<close>: \<open>guardsPassed\<close> and the memory the guards
  that ran have left.
\<close>

fun HandleStateMachine_guards :: "'w Predicate list \<Rightarrow> 'w memory \<Rightarrow> bool \<times> 'w memory" where
  "HandleStateMachine_guards [] m = (True, m)"
| "HandleStateMachine_guards (guard # guards) m =
     (case test guard m of
        (passed, m1) \<Rightarrow> if \<not> passed then (False, m1) else HandleStateMachine_guards guards m1)"

text \<open>
  The loop over \<open>sm.transitions\<close>. The slice is read once, when the loop starts;
  \<open>sm.CurrentState\<close> is read from memory at every iteration.
\<close>

fun HandleStateMachine_loop ::
  "'w heap \<Rightarrow> 'w Transition list \<Rightarrow> 'w memory \<Rightarrow> 'w memory result option" where
  "HandleStateMachine_loop h [] m = Some (Ok m)"
| "HandleStateMachine_loop h (transition # rest) m =
     (if CurrentState (fst m) = Transition.CurrentState transition then
        (case test (Event transition) m of
           (fired, m1) \<Rightarrow>
             if \<not> fired then HandleStateMachine_loop h rest m1
             else
               (case HandleStateMachine_guards (Guards transition) m1 of
                  (guardsPassed, m2) \<Rightarrow>
                    if \<not> guardsPassed then HandleStateMachine_loop h rest m2
                    else
                      (case executeTransitionActions h transition m2 of
                         None \<Rightarrow> None
                       | Some (Panic e) \<Rightarrow> Some (Panic e)
                       | Some (Ok m3) \<Rightarrow>
                           Some (Ok ((fst m3)\<lparr>CurrentState := NextState transition\<rparr>,
                                     snd m3)))))
      else HandleStateMachine_loop h rest m)"

definition HandleStateMachine :: "'w heap \<Rightarrow> 'w memory \<Rightarrow> 'w memory result option" where
  "HandleStateMachine h m =
     (case executeActionsInHierarchy h (CurrentState (fst m)) Handle m of
        None \<Rightarrow> None
      | Some m1 \<Rightarrow> HandleStateMachine_loop h (transitions (fst m1)) m1)"

section \<open>Selection and firing\<close>

text \<open>
  The body of the loop of \<open>HandleStateMachine\<close> in two halves. \<open>selects\<close> is the
  test of one transition: its source is the current state, its event is true and its
  guards pass; it returns the verdict and the memory the predicates that ran have left.
  \<open>fires\<close> is what the loop does with a selected transition: it executes the
  transition, then stores the target in \<open>sm.CurrentState\<close>. \<open>scan\<close> tests the
  transitions in order and stops at the first that is selected.
\<close>

definition selects :: "'w Transition \<Rightarrow> 'w memory \<Rightarrow> bool \<times> 'w memory" where
  "selects transition m =
     (if CurrentState (fst m) = Transition.CurrentState transition then
        (case test (Event transition) m of
           (fired, m1) \<Rightarrow>
             if fired then HandleStateMachine_guards (Guards transition) m1 else (False, m1))
      else (False, m))"

definition fires :: "'w heap \<Rightarrow> 'w Transition \<Rightarrow> 'w memory \<Rightarrow> 'w memory result option" where
  "fires h transition m =
     (case executeTransitionActions h transition m of
        None \<Rightarrow> None
      | Some (Panic e) \<Rightarrow> Some (Panic e)
      | Some (Ok m') \<Rightarrow> Some (Ok ((fst m')\<lparr>CurrentState := NextState transition\<rparr>, snd m')))"

fun scan :: "'w Transition list \<Rightarrow> 'w memory \<Rightarrow> 'w Transition option \<times> 'w memory" where
  "scan [] m = (None, m)"
| "scan (transition # rest) m =
     (case selects transition m of
        (selected, m1) \<Rightarrow> if selected then (Some transition, m1) else scan rest m1)"

text \<open>
  A predicate is \<open>effectless\<close> when it leaves the world as it found it, and a
  transition is a \<open>query\<close> when its event and its guards are effectless.
\<close>

definition effectless :: "'w Predicate \<Rightarrow> bool" where
  "effectless p = (\<forall>current w. snd (p current w) = w)"

definition query :: "'w Transition \<Rightarrow> bool" where
  "query transition = (effectless (Event transition) \<and> list_all effectless (Guards transition))"

text \<open>
  The actions of a transition whose endpoints have the chains \<open>xs\<close> and \<open>ys\<close>, in the
  order of the specification: exits below the common ancestor from the source
  outwards, the transition's own actions, entries below the common ancestor down to
  the target.
\<close>

definition transitionSequence ::
  "'w heap \<Rightarrow> 'w Transition \<Rightarrow> ptr \<Rightarrow> addr list \<Rightarrow> addr list \<Rightarrow> 'w Action list" where
  "transitionSequence h t commonAncestor xs ys =
     concat (map (\<lambda>a. Exit (h a)) (takeWhile (\<lambda>a. Some a \<noteq> commonAncestor) xs)) @
     Actions t @
     concat (map (\<lambda>a. Entry (h a)) (rev (takeWhile (\<lambda>a. Some a \<noteq> commonAncestor) ys)))"

section \<open>Ancestor chains\<close>

text \<open>
  \<open>is_chain h p xs\<close>: following the parent pointers from \<open>p\<close> visits exactly the
  addresses \<open>xs\<close>, innermost first, and then reaches nil. A pointer has such a chain
  exactly when its ancestry is acyclic.
\<close>

fun is_chain :: "'w heap \<Rightarrow> ptr \<Rightarrow> addr list \<Rightarrow> bool" where
  "is_chain h None xs = (xs = [])"
| "is_chain h (Some a) [] = False"
| "is_chain h (Some a) (x # xs) = (x = a \<and> is_chain h (ParentState (h a)) xs)"

section \<open>An example machine\<close>

text \<open>
  The states of the repository's test \<open>TestNestedStates\<close>, with actions that append
  their label to a log: address 0 is Parent State 2, address 1 is Parent State (inside
  Parent State 2), address 2 is State 1 (inside Parent State), address 3 is State 2
  (inside Parent State 2), and every other address is State 3, which has no parent.
\<close>

definition recordAction :: "string \<Rightarrow> string list Action" where
  "recordAction actionName = (\<lambda>current executedActions. executedActions @ [actionName])"

definition newState :: "string \<Rightarrow> ptr \<Rightarrow> string list State" where
  "newState label parent =
     \<lparr>Name = [], Entry = [recordAction (label @ '' Entry'')],
      Exit = [recordAction (label @ '' Exit'')],
      Handle = [recordAction (label @ '' Handle'')], ParentState = parent\<rparr>"

definition nestedStates :: "string list heap" where
  "nestedStates a =
     (if a = 0 then newState ''Parent State 2'' None
      else if a = 1 then newState ''Parent State'' (Some 0)
      else if a = 2 then newState ''State 1'' (Some 1)
      else if a = 3 then newState ''State 2'' (Some 0)
      else newState ''State 3'' None)"

text \<open>
  Predicates for the example: one without effect, one that logs its own call. An
  action that logs the current-state pointer it reads. A transition with one
  logging action.
\<close>

definition always :: "bool \<Rightarrow> string list Predicate" where
  "always b = (\<lambda>current executedActions. (b, executedActions))"

definition recordPredicate :: "string \<Rightarrow> bool \<Rightarrow> string list Predicate" where
  "recordPredicate predicateName b =
     (\<lambda>current executedActions. (b, executedActions @ [predicateName]))"

definition recordCurrent :: "string list Action" where
  "recordCurrent =
     (\<lambda>current executedActions. executedActions @
        [case current of None \<Rightarrow> ''current nil'' | Some a \<Rightarrow> ''current '' @ format_d a])"

definition newTransition ::
  "ptr \<Rightarrow> string list Predicate \<Rightarrow> string list Predicate list \<Rightarrow> string list Action list \<Rightarrow>
     ptr \<Rightarrow> string list Transition" where
  "newTransition source event guards actions target =
     \<lparr>Transition.CurrentState = source, Event = event, Guards = guards, Actions = actions,
      NextState = target\<rparr>"


definition noMatch :: "string list HierarchicalStateMachine" where
  "noMatch =
     \<lparr>CurrentState = Some 2, states = [],
      transitions =
        [newTransition (Some 2) (recordPredicate ''event 0'' False) [] [recordAction ''action 0'']
           (Some 4),
         newTransition (Some 3) (recordPredicate ''event 1'' True) [] [recordAction ''action 1'']
           (Some 4),
         newTransition (Some 2) (recordPredicate ''event 2'' True)
           [recordPredicate ''guard 2'' False] [recordAction ''action 2''] (Some 3)]\<rparr>"

definition observing :: "string list HierarchicalStateMachine" where
  "observing =
     \<lparr>CurrentState = Some 2, states = [],
      transitions = [newTransition (Some 2) (always True) [] [recordCurrent] (Some 3)]\<rparr>"

text \<open>
  An engine in State 1 whose predicates have no effect and select nothing.
\<close>

definition idle :: "string list HierarchicalStateMachine" where
  "idle =
     \<lparr>CurrentState = Some 2, states = [],
      transitions =
        [newTransition (Some 2) (always False) [] [recordAction ''action 0''] (Some 4),
         newTransition (Some 2) (always True) [always False] [recordAction ''action 1'']
           (Some 3)]\<rparr>"

section \<open>Running action lists\<close>

lemma executeActions_append:
  "executeActions (xs @ ys) m = executeActions ys (executeActions xs m)"
  by (induction xs arbitrary: m) simp_all

lemma fst_call: "fst (call a m) = fst m"
  by (simp add: call_def)

lemma fst_executeActions: "fst (executeActions xs m) = fst m"
  by (induction xs arbitrary: m) (simp_all add: fst_call)

section \<open>Chains are unique and repeat no state\<close>

lemma is_chain_unique: "is_chain h p xs \<Longrightarrow> is_chain h p ys \<Longrightarrow> xs = ys"
proof (induction xs arbitrary: p ys)
  case Nil
  then show ?case by (cases p; cases ys) auto
next
  case (Cons x xs)
  then show ?case by (cases p; cases ys) auto
qed

lemma is_chain_suffix:
  "is_chain h p (xs @ a # ys) \<Longrightarrow> is_chain h (Some a) (a # ys)"
proof (induction xs arbitrary: p)
  case Nil
  then show ?case by (cases p) auto
next
  case (Cons x xs)
  then show ?case by (cases p) auto
qed

lemma is_chain_distinct: "is_chain h p xs \<Longrightarrow> distinct xs"
proof (induction xs arbitrary: p)
  case Nil
  then show ?case by simp
next
  case (Cons x xs)
  then obtain a where st: "p = Some a" "x = a" "is_chain h (ParentState (h a)) xs"
    by (cases p) auto
  have "a \<notin> set xs"
  proof
    assume "a \<in> set xs"
    then obtain us vs where xs: "xs = us @ a # vs"
      by (auto simp: in_set_conv_decomp)
    with st(3) have "is_chain h (Some a) (a # vs)"
      using is_chain_suffix by blast
    moreover have "is_chain h (Some a) (a # xs)"
      using st by simp
    ultimately have "a # vs = a # xs"
      by (rule is_chain_unique)
    with xs show False by simp
  qed
  with Cons.IH [OF st(3)] st show ?case by simp
qed

section \<open>Hierarchical dispatch\<close>

lemma executeActionsInHierarchy_nil:
  "executeActionsInHierarchy h None actions m = Some m"
  by (subst executeActionsInHierarchy.simps) simp

lemma executeActionsInHierarchy_state:
  "executeActionsInHierarchy h (Some a) actions m =
     Option.bind (executeActionsInHierarchy h (ParentState (h a)) actions m)
       (\<lambda>m'. Some (executeActions (actions (h a)) m'))"
  by (subst executeActionsInHierarchy.simps) simp

lemma executeActionsInHierarchy_chain:
  "is_chain h state xs \<Longrightarrow>
   executeActionsInHierarchy h state actions m =
     Some (executeActions (concat (map (\<lambda>a. actions (h a)) (rev xs))) m)"
proof (induction xs arbitrary: state)
  case Nil
  then show ?case
    by (cases state) (simp_all add: executeActionsInHierarchy_nil)
next
  case (Cons x xs)
  then obtain a where st: "state = Some a" "x = a" "is_chain h (ParentState (h a)) xs"
    by (cases state) auto
  from Cons.IH [OF st(3)] show ?case
    by (simp add: st executeActionsInHierarchy_state executeActions_append)
qed

section \<open>Construction\<close>

lemma format_d_digit: "n < 10 \<Longrightarrow> format_d n = [digit n]"
  by (subst format_d.simps) simp

lemma format_d_MaxStates: "format_d MaxStates = ''10''"
  by (subst format_d.simps) (simp add: MaxStates_def format_d_digit digit_def)

lemma digit_value_digit: "d < 10 \<Longrightarrow> digit_value (digit d) = d"
proof -
  assume "d < 10"
  then have "d \<in> {0, 1, 2, 3, 4, 5, 6, 7, 8, 9}" by auto
  then show ?thesis
    by (auto simp: digit_value_def digit_def)
qed

lemma parse_d_format_d: "parse_d (format_d n) = n"
proof (induction n rule: format_d.induct)
  case (1 n)
  show ?case
  proof (cases "n < 10")
    case True
    then show ?thesis
      by (subst format_d.simps) (simp add: parse_d_def digit_value_digit)
  next
    case False
    with "1.IH" have "parse_d (format_d (n div 10)) = n div 10" by simp
    with False show ?thesis
      by (subst format_d.simps) (simp add: parse_d_def digit_value_digit)
  qed
qed

lemma format_d_inj: "inj format_d"
  by (rule inj_on_inverseI [where g = parse_d]) (rule parse_d_format_d)

text \<open>
  C3. Construction returns an error, and no engine, exactly when more than \<open>MaxStates\<close>
  (10) states are declared. The message of the error spells out the declared count and
  the bound, and the world comes back as it was given: no entry action has run.
  Different counts are spelt differently.
\<close>

theorem NewHierarchicalStateMachine_too_many_states:
  "(length sts > MaxStates \<longrightarrow>
      NewHierarchicalStateMachine h initialState sts trs w =
        Some (Inl (Errorf (''too many states declared: '' @ format_d (length sts) @
                           ''. max allowed is 10'')), w)) \<and>
   (length sts \<le> MaxStates \<longrightarrow>
      (\<forall>e w'. NewHierarchicalStateMachine h initialState sts trs w \<noteq> Some (Inl e, w'))) \<and>
   inj format_d"
  by (auto simp: NewHierarchicalStateMachine_def format_d_MaxStates format_d_inj Let_def
      split: option.splits)

theorem NewHierarchicalStateMachine_too_many_states_witness:
  "length (replicate 11 (newState ''State'' None)) > MaxStates \<and>
   NewHierarchicalStateMachine nestedStates (Some 2)
       (replicate 11 (newState ''State'' None)) [] [] =
     Some (Inl (Errorf ''too many states declared: 11. max allowed is 10''), []) \<and>
   length [newState ''State'' None] \<le> MaxStates \<and>
   (\<forall>e w'. NewHierarchicalStateMachine nestedStates (Some 2) [newState ''State'' None] [] []
      \<noteq> Some (Inl e, w'))"
  using NewHierarchicalStateMachine_too_many_states
      [of "replicate 11 (newState ''State'' None)" nestedStates "Some 2" "[]" "[]"]
    NewHierarchicalStateMachine_too_many_states
      [of "[newState ''State'' None]" nestedStates "Some 2" "[]" "[]"]
  by (simp add: MaxStates_def format_d.simps [of 11] format_d_digit digit_def)

text \<open>
  C4. When the initial state has an ancestry chain \<open>xs\<close> (itself first, its root last)
  and at most \<open>MaxStates\<close> states are declared, construction returns an engine whose
  current state is the initial state, after running the entry actions of the states of
  the chain from the root down to the initial state, and nothing else. No state occurs
  twice on the chain, so each state's entry actions run once.
\<close>

theorem NewHierarchicalStateMachine_entry_order:
  assumes "is_chain h initialState xs" and "length sts \<le> MaxStates"
  shows "NewHierarchicalStateMachine h initialState sts trs w =
           Some (Inr \<lparr>CurrentState = initialState, states = sts, transitions = trs\<rparr>,
                 snd (executeActions (concat (map (\<lambda>a. Entry (h a)) (rev xs)))
                        (\<lparr>CurrentState = initialState, states = sts, transitions = trs\<rparr>, w))) \<and>
         distinct xs"
  using assms
  by (simp add: NewHierarchicalStateMachine_def executeActionsInHierarchy_chain
      fst_executeActions is_chain_distinct Let_def)

theorem NewHierarchicalStateMachine_entry_order_witness:
  "is_chain nestedStates (Some 2) [2, 1, 0] \<and>
   length ([] :: string list State list) \<le> MaxStates \<and>
   NewHierarchicalStateMachine nestedStates (Some 2) [] [] [] =
     Some (Inr \<lparr>CurrentState = Some 2, states = [], transitions = []\<rparr>,
           [''Parent State 2 Entry'', ''Parent State Entry'', ''State 1 Entry''])"
  using NewHierarchicalStateMachine_entry_order
      [of nestedStates "Some 2" "[2, 1, 0]" "[]" "[]" "[]"]
  by (simp add: nestedStates_def newState_def recordAction_def call_def MaxStates_def)

section \<open>The processing tick\<close>

text \<open>
  C5. A tick starts with the handle actions of the states on the chain \<open>xs\<close> of the
  current state, from the root down to the current state, each state once; the scan of
  the transitions starts from the memory they leave, whatever the transitions are.
\<close>

theorem HandleStateMachine_handle_dispatch:
  assumes "is_chain h (CurrentState (fst m)) xs"
  shows "HandleStateMachine h m =
           HandleStateMachine_loop h (transitions (fst m))
             (executeActions (concat (map (\<lambda>a. Handle (h a)) (rev xs))) m) \<and>
         distinct xs"
  using assms
  by (simp add: HandleStateMachine_def executeActionsInHierarchy_chain
      fst_executeActions is_chain_distinct)

theorem HandleStateMachine_handle_dispatch_witness:
  "is_chain nestedStates (Some 2) [2, 1, 0] \<and>
   HandleStateMachine nestedStates
       (\<lparr>CurrentState = Some 2, states = [], transitions = []\<rparr>, []) =
     Some (Ok (\<lparr>CurrentState = Some 2, states = [], transitions = []\<rparr>,
               [''Parent State 2 Handle'', ''Parent State Handle'', ''State 1 Handle'']))"
  using HandleStateMachine_handle_dispatch
      [of nestedStates "(\<lparr>CurrentState = Some 2, states = [], transitions = []\<rparr>, [])"
          "[2, 1, 0]"]
  by (simp add: nestedStates_def newState_def recordAction_def call_def)

section \<open>The common ancestor\<close>

lemma findCommonAncestor_visit_chain:
  "is_chain h state1 xs \<Longrightarrow> visitedCount + length xs \<le> length visited \<Longrightarrow>
   \<exists>visited'. findCommonAncestor_visit h state1 visited visitedCount =
       Ok (visited', visitedCount + length xs) \<and>
     length visited' = length visited \<and>
     take (visitedCount + length xs) visited' = take visitedCount visited @ map Some xs"
proof (induction xs arbitrary: state1 visited visitedCount)
  case Nil
  then show ?case
    by (cases state1) (simp_all add: findCommonAncestor_visit.simps)
next
  case (Cons x xs)
  then obtain st: "state1 = Some x" "is_chain h (ParentState (h x)) xs"
    by (cases state1) auto
  from Cons.prems(2) have lt: "visitedCount < length visited" by simp
  let ?v = "visited[visitedCount := Some x]"
  from Cons.prems(2) have "Suc visitedCount + length xs \<le> length ?v" by simp
  from Cons.IH [OF st(2) this] obtain visited' where
    r: "findCommonAncestor_visit h (ParentState (h x)) ?v (Suc visitedCount) =
          Ok (visited', Suc visitedCount + length xs)"
    and l: "length visited' = length ?v"
    and t: "take (Suc visitedCount + length xs) visited' = take (Suc visitedCount) ?v @ map Some xs"
    by blast
  have "take (Suc visitedCount) ?v = take visitedCount visited @ [Some x]"
    using lt by (simp add: take_Suc_conv_app_nth)
  with r l t lt st(1) show ?case
    by (subst findCommonAncestor_visit.simps) simp
qed

lemma findCommonAncestor_member_set:
  "visitedCount \<le> length visited \<Longrightarrow>
   findCommonAncestor_member state2 visited visitedCount i =
     Ok (state2 \<in> set (drop i (take visitedCount visited)))"
proof (induction state2 visited visitedCount i rule: findCommonAncestor_member.induct)
  case (1 state2 visited visitedCount i)
  show ?case
  proof (cases "i < visitedCount")
    case False
    then show ?thesis
      by (subst findCommonAncestor_member.simps) simp
  next
    case True
    with "1.prems" have il: "i < length visited" by simp
    from True il have d: "drop i (take visitedCount visited) =
        visited ! i # drop (Suc i) (take visitedCount visited)"
      by (simp add: Cons_nth_drop_Suc [symmetric])
    show ?thesis
    proof (cases "state2 = visited ! i")
      case True
      with \<open>i < visitedCount\<close> il d show ?thesis
        by (subst findCommonAncestor_member.simps) simp
    next
      case False
      with "1.IH" [OF \<open>i < visitedCount\<close> il False "1.prems"] \<open>i < visitedCount\<close> il d
      show ?thesis
        by (subst findCommonAncestor_member.simps) simp
    qed
  qed
qed

lemma findCommonAncestor_walk_nil: "findCommonAncestor_walk h None visited visitedCount = Some (Ok None)"
  by (subst findCommonAncestor_walk.simps) simp

lemma findCommonAncestor_walk_state:
  "findCommonAncestor_walk h (Some b) visited visitedCount =
     (case findCommonAncestor_member (Some b) visited visitedCount 0 of
        Panic e \<Rightarrow> Some (Panic e)
      | Ok found \<Rightarrow>
          if found then Some (Ok (Some b))
          else findCommonAncestor_walk h (ParentState (h b)) visited visitedCount)"
  by (subst findCommonAncestor_walk.simps) simp

lemma findCommonAncestor_walk_chain:
  "is_chain h state2 ys \<Longrightarrow> visitedCount \<le> length visited \<Longrightarrow>
   findCommonAncestor_walk h state2 visited visitedCount =
     Some (Ok (find (\<lambda>b. Some b \<in> set (take visitedCount visited)) ys))"
proof (induction ys arbitrary: state2)
  case Nil
  then show ?case by (cases state2) (simp_all add: findCommonAncestor_walk_nil)
next
  case (Cons y ys)
  then obtain st: "state2 = Some y" "is_chain h (ParentState (h y)) ys"
    by (cases state2) auto
  from Cons.IH [OF st(2) Cons.prems(2)] Cons.prems(2) st(1) show ?case
    by (simp add: findCommonAncestor_walk_state findCommonAncestor_member_set)
qed

lemma findCommonAncestor_chain:
  assumes "is_chain h state1 xs" and "is_chain h state2 ys" and "length xs \<le> MaxStates"
  shows "findCommonAncestor h state1 state2 = Some (Ok (find (\<lambda>b. b \<in> set xs) ys))"
proof -
  from findCommonAncestor_visit_chain [OF assms(1), of 0 "replicate MaxStates None"] assms(3)
  obtain visited where
    r: "findCommonAncestor_visit h state1 (replicate MaxStates None) 0 = Ok (visited, length xs)"
    and l: "length visited = MaxStates"
    and t: "take (length xs) visited = map Some xs"
    by auto
  have "(\<lambda>b. Some b \<in> set (map Some xs)) = (\<lambda>b. b \<in> set xs)"
    by auto
  with findCommonAncestor_walk_chain [OF assms(2), of "length xs" visited] l t assms(3) r show ?thesis
    by (simp add: findCommonAncestor_def)
qed

text \<open>
  The arrays are the reason for the bound: on a chain of more than \<open>MaxStates\<close>
  states the first loop stores outside \<open>visited\<close> and the search panics.
\<close>

lemma findCommonAncestor_visit_overflow:
  "is_chain h state1 xs \<Longrightarrow> visitedCount \<le> length visited \<Longrightarrow>
   length visited < visitedCount + length xs \<Longrightarrow>
   findCommonAncestor_visit h state1 visited visitedCount = Panic IndexOutOfRange"
proof (induction xs arbitrary: state1 visited visitedCount)
  case Nil
  then show ?case by simp
next
  case (Cons x xs)
  then obtain st: "state1 = Some x" "is_chain h (ParentState (h x)) xs"
    by (cases state1) auto
  show ?case
  proof (cases "visitedCount < length visited")
    case False
    with st(1) show ?thesis
      by (subst findCommonAncestor_visit.simps) simp
  next
    case True
    let ?v = "visited[visitedCount := Some x]"
    from True Cons.prems(3) have "Suc visitedCount \<le> length ?v"
      and "length ?v < Suc visitedCount + length xs"
      by simp_all
    from Cons.IH [OF st(2) this] True st(1) show ?thesis
      by (subst findCommonAncestor_visit.simps) simp
  qed
qed

lemma findCommonAncestor_beyond_bound:
  assumes "is_chain h state1 xs" and "MaxStates < length xs"
  shows "findCommonAncestor h state1 state2 = Some (Panic IndexOutOfRange)"
  using findCommonAncestor_visit_overflow [OF assms(1), of 0 "replicate MaxStates None"] assms(2)
  by (simp add: findCommonAncestor_def)

section \<open>Exit and entry walks\<close>

lemma exitToCommonAncestor_chain:
  "is_chain h state xs \<Longrightarrow> commonAncestor = None \<or> (\<exists>c. commonAncestor = Some c \<and> c \<in> set xs) \<Longrightarrow>
   exitToCommonAncestor h state commonAncestor m =
     Some (Ok (executeActions
       (concat (map (\<lambda>a. Exit (h a)) (takeWhile (\<lambda>a. Some a \<noteq> commonAncestor) xs))) m))"
proof (induction xs arbitrary: state m)
  case Nil
  then show ?case
    by (cases state) (auto simp: exitToCommonAncestor.simps)
next
  case (Cons x xs)
  then obtain st: "state = Some x" "is_chain h (ParentState (h x)) xs"
    by (cases state) auto
  show ?case
  proof (cases "Some x = commonAncestor")
    case True
    with st(1) show ?thesis
      by (subst exitToCommonAncestor.simps) simp
  next
    case False
    with Cons.prems(2)
    have "commonAncestor = None \<or> (\<exists>c. commonAncestor = Some c \<and> c \<in> set xs)"
      by auto
    from Cons.IH [OF st(2) this] False st(1) show ?thesis
      by (subst exitToCommonAncestor.simps) (simp add: executeActions_append)
  qed
qed

lemma enterFromCommonAncestor_push_chain:
  "is_chain h state ys \<Longrightarrow> commonAncestor = None \<or> (\<exists>c. commonAncestor = Some c \<and> c \<in> set ys) \<Longrightarrow>
   stackCount + length (takeWhile (\<lambda>a. Some a \<noteq> commonAncestor) ys) \<le> length stack \<Longrightarrow>
   \<exists>stack'. enterFromCommonAncestor_push h state commonAncestor stack stackCount =
       Ok (stack', stackCount + length (takeWhile (\<lambda>a. Some a \<noteq> commonAncestor) ys)) \<and>
     length stack' = length stack \<and>
     take (stackCount + length (takeWhile (\<lambda>a. Some a \<noteq> commonAncestor) ys)) stack' =
       take stackCount stack @ map Some (takeWhile (\<lambda>a. Some a \<noteq> commonAncestor) ys)"
proof (induction ys arbitrary: state stack stackCount)
  case Nil
  then show ?case
    by (cases state) (auto simp: enterFromCommonAncestor_push.simps)
next
  case (Cons y ys)
  then obtain st: "state = Some y" "is_chain h (ParentState (h y)) ys"
    by (cases state) auto
  show ?case
  proof (cases "Some y = commonAncestor")
    case True
    with st(1) show ?thesis
      by (subst enterFromCommonAncestor_push.simps) auto
  next
    case False
    let ?zs = "takeWhile (\<lambda>a. Some a \<noteq> commonAncestor) ys"
    let ?s = "stack[stackCount := Some y]"
    from False Cons.prems(2)
    have ca: "commonAncestor = None \<or> (\<exists>c. commonAncestor = Some c \<and> c \<in> set ys)"
      by auto
    from False Cons.prems(3) have lt: "stackCount < length stack"
      and le: "Suc stackCount + length ?zs \<le> length ?s"
      by auto
    from Cons.IH [OF st(2) ca le] obtain stack' where
      r: "enterFromCommonAncestor_push h (ParentState (h y)) commonAncestor ?s (Suc stackCount) =
            Ok (stack', Suc stackCount + length ?zs)"
      and l: "length stack' = length ?s"
      and t: "take (Suc stackCount + length ?zs) stack' = take (Suc stackCount) ?s @ map Some ?zs"
      by blast
    have "take (Suc stackCount) ?s = take stackCount stack @ [Some y]"
      using lt by (simp add: take_Suc_conv_app_nth)
    with r l t lt st(1) False show ?thesis
      by (subst enterFromCommonAncestor_push.simps) simp
  qed
qed

lemma enterFromCommonAncestor_pop_stack:
  "take (length zs) stack = map Some zs \<Longrightarrow> length zs \<le> length stack \<Longrightarrow>
   enterFromCommonAncestor_pop h stack (length zs) m =
     Ok (executeActions (concat (map (\<lambda>a. Entry (h a)) (rev zs))) m)"
proof (induction zs arbitrary: m rule: rev_induct)
  case Nil
  then show ?case by simp
next
  case (snoc z zs)
  from snoc.prems have lt: "length zs < length stack" by simp
  from snoc.prems(1) lt have "take (length zs) stack @ [stack ! length zs] = map Some zs @ [Some z]"
    by (simp add: take_Suc_conv_app_nth)
  then have t: "take (length zs) stack = map Some zs" and n: "stack ! length zs = Some z"
    by simp_all
  from snoc.IH [OF t] lt n show ?case
    by (simp add: executeActions_append)
qed

lemma enterFromCommonAncestor_chain:
  assumes "is_chain h state ys"
    and "commonAncestor = None \<or> (\<exists>c. commonAncestor = Some c \<and> c \<in> set ys)"
    and "length (takeWhile (\<lambda>a. Some a \<noteq> commonAncestor) ys) \<le> MaxStates"
  shows "enterFromCommonAncestor h state commonAncestor m =
     Ok (executeActions
       (concat (map (\<lambda>a. Entry (h a)) (rev (takeWhile (\<lambda>a. Some a \<noteq> commonAncestor) ys)))) m)"
proof -
  let ?zs = "takeWhile (\<lambda>a. Some a \<noteq> commonAncestor) ys"
  from enterFromCommonAncestor_push_chain [OF assms(1,2), of 0 "replicate MaxStates None"] assms(3)
  obtain stack where
    r: "enterFromCommonAncestor_push h state commonAncestor (replicate MaxStates None) 0 =
          Ok (stack, length ?zs)"
    and l: "length stack = MaxStates"
    and t: "take (length ?zs) stack = map Some ?zs"
    by auto
  from enterFromCommonAncestor_pop_stack [OF t] l assms(3) r show ?thesis
    by (simp add: enterFromCommonAncestor_def)
qed

lemma find_common:
  "find (\<lambda>b. b \<in> set xs) ys = None \<or>
   (\<exists>c. find (\<lambda>b. b \<in> set xs) ys = Some c \<and> c \<in> set xs \<and> c \<in> set ys)"
  by (cases "find (\<lambda>b. b \<in> set xs) ys") (auto simp: find_Some_iff)

lemma executeTransitionActions_chain:
  assumes "is_chain h (Transition.CurrentState t) xs" and "is_chain h (NextState t) ys"
    and "length xs \<le> MaxStates" and "length ys \<le> MaxStates"
    and "findCommonAncestor h (Transition.CurrentState t) (NextState t) = Some (Ok commonAncestor)"
  shows "executeTransitionActions h t m =
     Some (Ok (executeActions
       (concat (map (\<lambda>a. Exit (h a)) (takeWhile (\<lambda>a. Some a \<noteq> commonAncestor) xs)) @
        Actions t @
        concat (map (\<lambda>a. Entry (h a)) (rev (takeWhile (\<lambda>a. Some a \<noteq> commonAncestor) ys)))) m))"
proof -
  from findCommonAncestor_chain [OF assms(1,2,3)] assms(5)
  have ca: "commonAncestor = find (\<lambda>b. b \<in> set xs) ys" by simp
  with find_common [of xs ys]
  have cx: "commonAncestor = None \<or> (\<exists>c. commonAncestor = Some c \<and> c \<in> set xs)"
    and cy: "commonAncestor = None \<or> (\<exists>c. commonAncestor = Some c \<and> c \<in> set ys)"
    by auto
  have "length (takeWhile (\<lambda>a. Some a \<noteq> commonAncestor) ys) \<le> length ys"
    by (rule length_takeWhile_le)
  with assms(4) have le: "length (takeWhile (\<lambda>a. Some a \<noteq> commonAncestor) ys) \<le> MaxStates"
    by simp
  show ?thesis
    by (simp add: executeTransitionActions_def assms(5) exitToCommonAncestor_chain [OF assms(1) cx]
        enterFromCommonAncestor_chain [OF assms(2) cy le] executeActions_append)
qed

lemma find_first:
  "find P ys = Some c \<Longrightarrow> \<exists>us vs. ys = us @ c # vs \<and> P c \<and> (\<forall>u \<in> set us. \<not> P u)"
proof (induction ys)
  case Nil
  then show ?case by simp
next
  case (Cons y ys)
  show ?case
  proof (cases "P y")
    case True
    with Cons.prems have "y = c" by simp
    with True have "y # ys = [] @ c # ys \<and> P c \<and> (\<forall>u \<in> set []. \<not> P u)" by simp
    then show ?thesis by blast
  next
    case False
    with Cons obtain us vs where "ys = us @ c # vs" "P c" "\<forall>u \<in> set us. \<not> P u"
      by auto
    with False have "y # ys = (y # us) @ c # vs \<and> P c \<and> (\<forall>u \<in> set (y # us). \<not> P u)"
      by simp
    then show ?thesis by blast
  qed
qed

lemma find_none_disjoint: "find (\<lambda>b. b \<in> set xs) ys = None \<longleftrightarrow> set xs \<inter> set ys = {}"
  by (auto simp: find_None_iff)

lemma find_deepest:
  assumes "is_chain h state2 ys" and "find (\<lambda>b. b \<in> set xs) ys = Some c"
  shows "c \<in> set xs \<and> c \<in> set ys \<and>
         (\<forall>d \<in> set xs \<inter> set ys. \<exists>zs. is_chain h (Some c) zs \<and> d \<in> set zs)"
proof -
  from find_first [OF assms(2)] obtain us vs where
    ys: "ys = us @ c # vs" and c: "c \<in> set xs" and us: "\<forall>u \<in> set us. u \<notin> set xs"
    by blast
  from assms(1) ys have ch: "is_chain h (Some c) (c # vs)"
    using is_chain_suffix by blast
  have "\<exists>zs. is_chain h (Some c) zs \<and> d \<in> set zs" if "d \<in> set xs \<inter> set ys" for d
  proof -
    from that ys us have "d \<in> set (c # vs)" by auto
    with ch show ?thesis by blast
  qed
  with c ys show ?thesis by simp
qed

lemma takeWhile_True: "takeWhile (\<lambda>a. True) xs = xs"
  by (induction xs) simp_all

lemma nestedStates_simps [simp]:
  "nestedStates 0 = newState ''Parent State 2'' None"
  "nestedStates (Suc 0) = newState ''Parent State'' (Some 0)"
  "nestedStates 2 = newState ''State 1'' (Some 1)"
  "nestedStates 3 = newState ''State 2'' (Some 0)"
  "nestedStates 4 = newState ''State 3'' None"
  by (simp_all add: nestedStates_def)

section \<open>Executing a transition\<close>

text \<open>
  C1. Let the source \<open>S\<close> and the target \<open>T\<close> of a transition have the ancestry chains
  \<open>xs\<close> and \<open>ys\<close>, of at most \<open>MaxStates\<close> states each, and let \<open>commonAncestor\<close> be
  what \<open>findCommonAncestor\<close> computes for them. Executing the transition runs, in this
  order: the exit actions of the states of \<open>xs\<close> before \<open>commonAncestor\<close>, innermost
  first; the transition's own actions as declared; the entry actions of the states of
  \<open>ys\<close> before \<open>commonAncestor\<close>, outermost first. When \<open>S\<close> is the common ancestor
  there is no state to exit, and when \<open>T\<close> is the common ancestor there is no state to
  enter.
\<close>

theorem executeTransitionActions_order:
  assumes "is_chain h (Transition.CurrentState t) xs" and "is_chain h (NextState t) ys"
    and "length xs \<le> MaxStates" and "length ys \<le> MaxStates"
    and "findCommonAncestor h (Transition.CurrentState t) (NextState t) = Some (Ok commonAncestor)"
  shows "executeTransitionActions h t m =
           Some (Ok (executeActions
             (concat (map (\<lambda>a. Exit (h a)) (takeWhile (\<lambda>a. Some a \<noteq> commonAncestor) xs)) @
              Actions t @
              concat (map (\<lambda>a. Entry (h a))
                (rev (takeWhile (\<lambda>a. Some a \<noteq> commonAncestor) ys)))) m)) \<and>
         (Transition.CurrentState t = commonAncestor \<longrightarrow>
            takeWhile (\<lambda>a. Some a \<noteq> commonAncestor) xs = []) \<and>
         (NextState t = commonAncestor \<longrightarrow>
            takeWhile (\<lambda>a. Some a \<noteq> commonAncestor) ys = [])"
proof -
  have "takeWhile (\<lambda>a. Some a \<noteq> p) zs = []" if "is_chain h p zs" for p zs
    using that by (cases p; cases zs) auto
  with assms(1,2) executeTransitionActions_chain [OF assms] show ?thesis by blast
qed

theorem executeTransitionActions_order_witness:
  "is_chain nestedStates (Some 2) [2, 1, 0] \<and> is_chain nestedStates (Some 3) [3, 0] \<and>
   length [2 :: addr, 1, 0] \<le> MaxStates \<and> length [3 :: addr, 0] \<le> MaxStates \<and>
   findCommonAncestor nestedStates (Some 2) (Some 3) = Some (Ok (Some 0)) \<and>
   executeTransitionActions nestedStates
       (newTransition (Some 2) (always True) [] [recordAction ''State 1 -> State 2 Transition'']
          (Some 3))
       (\<lparr>CurrentState = Some 2, states = [], transitions = []\<rparr>, []) =
     Some (Ok (\<lparr>CurrentState = Some 2, states = [], transitions = []\<rparr>,
               [''State 1 Exit'', ''Parent State Exit'', ''State 1 -> State 2 Transition'',
                ''State 2 Entry'']))"
proof -
  have c1: "is_chain nestedStates (Some 2) [2, 1, 0]"
    and c2: "is_chain nestedStates (Some 3) [3, 0]"
    by (simp_all add: newState_def)
  have l1: "length [2 :: addr, 1, 0] \<le> MaxStates" and l2: "length [3 :: addr, 0] \<le> MaxStates"
    by (simp_all add: MaxStates_def)
  have ca: "findCommonAncestor nestedStates (Some 2) (Some 3) = Some (Ok (Some 0))"
    using findCommonAncestor_chain [OF c1 c2 l1] by simp
  show ?thesis
    using c1 c2 l1 l2 ca
      executeTransitionActions_order [of nestedStates "newTransition (Some 2) (always True) []
            [recordAction ''State 1 -> State 2 Transition''] (Some 3)" "[2, 1, 0]" "[3, 0]" "Some 0"
          "(\<lparr>CurrentState = Some 2, states = [], transitions = []\<rparr>, [])"]
    by (simp add: newTransition_def newState_def recordAction_def call_def)
qed

text \<open>
  C8. For states \<open>S\<close> and \<open>T\<close> with the ancestry chains \<open>xs\<close> (of at most \<open>MaxStates\<close>
  states) and \<open>ys\<close>, \<open>findCommonAncestor\<close> returns the first state of \<open>ys\<close>, walking
  outwards from \<open>T\<close>, that is on \<open>xs\<close>. That state is on both chains and every state
  on both chains is on its own chain (it is the deepest); the result is nil exactly
  when the chains share no state, and then a transition from \<open>S\<close> to \<open>T\<close> (with at
  most \<open>MaxStates\<close> states on \<open>ys\<close>) exits all of \<open>xs\<close> and enters all of \<open>ys\<close>.
\<close>

theorem findCommonAncestor_deepest:
  assumes "is_chain h state1 xs" and "is_chain h state2 ys" and "length xs \<le> MaxStates"
  shows "findCommonAncestor h state1 state2 = Some (Ok (find (\<lambda>b. b \<in> set xs) ys)) \<and>
         (\<forall>c. find (\<lambda>b. b \<in> set xs) ys = Some c \<longrightarrow>
            c \<in> set xs \<and> c \<in> set ys \<and>
            (\<forall>d \<in> set xs \<inter> set ys. \<exists>zs. is_chain h (Some c) zs \<and> d \<in> set zs)) \<and>
         (find (\<lambda>b. b \<in> set xs) ys = None \<longleftrightarrow> set xs \<inter> set ys = {}) \<and>
         (set xs \<inter> set ys = {} \<and> length ys \<le> MaxStates \<and>
          Transition.CurrentState t = state1 \<and> NextState t = state2 \<longrightarrow>
            executeTransitionActions h t m =
              Some (Ok (executeActions
                (concat (map (\<lambda>a. Exit (h a)) xs) @ Actions t @
                 concat (map (\<lambda>a. Entry (h a)) (rev ys))) m)))"
proof -
  have ca: "findCommonAncestor h state1 state2 = Some (Ok (find (\<lambda>b. b \<in> set xs) ys))"
    using assms by (rule findCommonAncestor_chain)
  have "executeTransitionActions h t m =
      Some (Ok (executeActions
        (concat (map (\<lambda>a. Exit (h a)) xs) @ Actions t @
         concat (map (\<lambda>a. Entry (h a)) (rev ys))) m))"
    if "set xs \<inter> set ys = {}" "length ys \<le> MaxStates"
      "Transition.CurrentState t = state1" "NextState t = state2"
  proof -
    from that(1) have "find (\<lambda>b. b \<in> set xs) ys = None"
      by (simp add: find_none_disjoint)
    with ca that(3,4)
    have "findCommonAncestor h (Transition.CurrentState t) (NextState t) = Some (Ok None)"
      by simp
    from executeTransitionActions_chain [OF _ _ assms(3) that(2) this] assms(1,2) that(3,4)
    show ?thesis by (simp add: takeWhile_True)
  qed
  with ca find_deepest [OF assms(2)] find_none_disjoint [of xs ys] show ?thesis
    by blast
qed

theorem findCommonAncestor_deepest_witness:
  "is_chain nestedStates (Some 2) [2, 1, 0] \<and> is_chain nestedStates (Some 3) [3, 0] \<and>
   length [2 :: addr, 1, 0] \<le> MaxStates \<and>
   findCommonAncestor nestedStates (Some 2) (Some 3) = Some (Ok (Some 0)) \<and>
   is_chain nestedStates (Some 4) [4] \<and> length [4 :: addr] \<le> MaxStates \<and>
   set [3 :: addr, 0] \<inter> set [4] = {} \<and>
   findCommonAncestor nestedStates (Some 3) (Some 4) = Some (Ok None) \<and>
   executeTransitionActions nestedStates
       (newTransition (Some 3) (always True) [] [recordAction ''State 2 -> State 3 Transition'']
          (Some 4))
       (\<lparr>CurrentState = Some 3, states = [], transitions = []\<rparr>, []) =
     Some (Ok (\<lparr>CurrentState = Some 3, states = [], transitions = []\<rparr>,
               [''State 2 Exit'', ''Parent State 2 Exit'', ''State 2 -> State 3 Transition'',
                ''State 3 Entry'']))"
proof -
  have c1: "is_chain nestedStates (Some 2) [2, 1, 0]"
    and c2: "is_chain nestedStates (Some 3) [3, 0]"
    and c3: "is_chain nestedStates (Some 4) [4]"
    by (simp_all add: newState_def)
  have l1: "length [2 :: addr, 1, 0] \<le> MaxStates" and l2: "length [3 :: addr, 0] \<le> MaxStates"
    and l3: "length [4 :: addr] \<le> MaxStates"
    by (simp_all add: MaxStates_def)
  show ?thesis
    using c1 c2 c3 l1 l2 l3
      findCommonAncestor_deepest [OF c1 c2 l1]
      findCommonAncestor_deepest [OF c2 c3 l2, of "newTransition (Some 3) (always True) []
            [recordAction ''State 2 -> State 3 Transition''] (Some 4)"
          "(\<lparr>CurrentState = Some 3, states = [], transitions = []\<rparr>, [])"]
    by (simp add: newTransition_def newState_def recordAction_def call_def)
qed

text \<open>
  C10. When the chains of both states are acyclic and hold at most \<open>MaxStates\<close>
  states, the search for the common ancestor returns without a panic, and so does
  the entry walk from the target to that ancestor: no store or read leaves the arrays
  \<open>visited\<close> and \<open>stack\<close>, and both traversals end.
\<close>

theorem scratch_arrays_in_bounds:
  assumes "is_chain h state1 xs" and "is_chain h state2 ys"
    and "length xs \<le> MaxStates" and "length ys \<le> MaxStates"
  shows "\<exists>commonAncestor m'.
           findCommonAncestor h state1 state2 = Some (Ok commonAncestor) \<and>
           enterFromCommonAncestor h state2 commonAncestor m = Ok m'"
proof -
  let ?ca = "find (\<lambda>b. b \<in> set xs) ys"
  have ca: "findCommonAncestor h state1 state2 = Some (Ok ?ca)"
    using assms(1,2,3) by (rule findCommonAncestor_chain)
  from find_common [of xs ys]
  have cy: "?ca = None \<or> (\<exists>c. ?ca = Some c \<and> c \<in> set ys)" by auto
  have "length (takeWhile (\<lambda>a. Some a \<noteq> ?ca) ys) \<le> length ys"
    by (rule length_takeWhile_le)
  with assms(4) have "length (takeWhile (\<lambda>a. Some a \<noteq> ?ca) ys) \<le> MaxStates" by simp
  from enterFromCommonAncestor_chain [OF assms(2) cy this] ca show ?thesis by blast
qed

theorem scratch_arrays_in_bounds_witness:
  "is_chain nestedStates (Some 2) [2, 1, 0] \<and> is_chain nestedStates (Some 3) [3, 0] \<and>
   length [2 :: addr, 1, 0] \<le> MaxStates \<and> length [3 :: addr, 0] \<le> MaxStates \<and>
   (\<exists>commonAncestor m'.
      findCommonAncestor nestedStates (Some 2) (Some 3) = Some (Ok commonAncestor) \<and>
      enterFromCommonAncestor nestedStates (Some 3) commonAncestor
        (\<lparr>CurrentState = Some 2, states = [], transitions = []\<rparr>, []) = Ok m')"
proof -
  have c1: "is_chain nestedStates (Some 2) [2, 1, 0]"
    and c2: "is_chain nestedStates (Some 3) [3, 0]"
    by (simp_all add: newState_def)
  have l1: "length [2 :: addr, 1, 0] \<le> MaxStates" and l2: "length [3 :: addr, 0] \<le> MaxStates"
    by (simp_all add: MaxStates_def)
  show ?thesis
    using c1 c2 l1 l2 scratch_arrays_in_bounds [OF c1 c2 l1 l2] by simp
qed

section \<open>The scan of the transitions\<close>

lemma fst_test: "test p m = (b, m') \<Longrightarrow> fst m' = fst m"
  by (auto simp: test_def split: prod.splits)

lemma fst_guards: "HandleStateMachine_guards gs m = (b, m') \<Longrightarrow> fst m' = fst m"
proof (induction gs arbitrary: m)
  case Nil
  then show ?case by simp
next
  case (Cons g gs)
  then show ?case
    by (auto split: prod.splits if_splits dest: fst_test)
qed

lemma fst_selects:
  assumes "selects t m = (b, m')"
  shows "fst m' = fst m"
proof (cases "CurrentState (fst m) = Transition.CurrentState t")
  case False
  with assms show ?thesis by (simp add: selects_def)
next
  case True
  obtain fired m1 where ev: "test (Event t) m = (fired, m1)"
    by (cases "test (Event t) m")
  then have m1: "fst m1 = fst m" by (rule fst_test)
  show ?thesis
  proof (cases fired)
    case True
    with assms ev \<open>CurrentState (fst m) = Transition.CurrentState t\<close>
    have "HandleStateMachine_guards (Guards t) m1 = (b, m')"
      by (simp add: selects_def)
    then have "fst m' = fst m1" by (rule fst_guards)
    with m1 show ?thesis by simp
  next
    case False
    with assms ev \<open>CurrentState (fst m) = Transition.CurrentState t\<close> m1
    show ?thesis by (simp add: selects_def)
  qed
qed

lemma fst_scan: "scan ts m = (r, m') \<Longrightarrow> fst m' = fst m"
proof (induction ts arbitrary: m)
  case Nil
  then show ?case by simp
next
  case (Cons t ts)
  obtain selected m1 where sel: "selects t m = (selected, m1)"
    by (cases "selects t m")
  then have "fst m1 = fst m" by (rule fst_selects)
  with Cons sel show ?case
    by (cases selected) auto
qed

lemma fst_executeActionsInHierarchy:
  assumes "executeActionsInHierarchy h state actions m = Some m'"
  shows "fst m' = fst m"
proof (rule executeActionsInHierarchy.raw_induct
    [where P = "\<lambda>h state actions m m'. fst m' = fst m", OF _ assms])
  fix f :: "'a heap \<Rightarrow> ptr \<Rightarrow> ('a State \<Rightarrow> 'a Action list) \<Rightarrow> 'a memory \<Rightarrow> 'a memory option"
  fix h state actions m r
  assume IH: "\<And>h state actions m y. f h state actions m = Some y \<Longrightarrow> fst y = fst m"
    and step: "(case state of None \<Rightarrow> Some m
        | Some a \<Rightarrow> Option.bind (f h (ParentState (h a)) actions m)
            (\<lambda>m'. Some (executeActions (actions (h a)) m'))) = Some r"
  show "fst r = fst m"
  proof (cases state)
    case None
    with step show ?thesis by simp
  next
    case (Some a)
    with step obtain m1 where "f h (ParentState (h a)) actions m = Some m1"
      and "r = executeActions (actions (h a)) m1"
      by (auto split: Option.bind_splits)
    with IH [of h "ParentState (h a)" actions m m1] show ?thesis
      by (simp add: fst_executeActions)
  qed
qed

lemma HandleStateMachine_loop_step:
  "HandleStateMachine_loop h (t # rest) m =
     (case selects t m of
        (selected, m1) \<Rightarrow> if selected then fires h t m1 else HandleStateMachine_loop h rest m1)"
  by (auto simp: selects_def fires_def split: prod.splits option.splits result.splits)

lemma HandleStateMachine_loop_scan:
  "HandleStateMachine_loop h ts m =
     (case scan ts m of (None, m1) \<Rightarrow> Some (Ok m1) | (Some t, m1) \<Rightarrow> fires h t m1)"
proof (induction ts arbitrary: m)
  case Nil
  then show ?case by simp
next
  case (Cons t ts)
  obtain selected m1 where sel: "selects t m = (selected, m1)"
    by (cases "selects t m")
  with Cons.IH [of m1] show ?case
    by (simp add: HandleStateMachine_loop_step del: HandleStateMachine_loop.simps)
qed


lemma HandleStateMachine_guards_stop:
  "HandleStateMachine_guards pre m = (True, m1) \<Longrightarrow> test g m1 = (False, m2) \<Longrightarrow>
   HandleStateMachine_guards (pre @ g # post) m = (False, m2)"
proof (induction pre arbitrary: m)
  case Nil
  then show ?case by simp
next
  case (Cons p pre)
  then show ?case by (auto split: prod.splits if_splits)
qed

lemma HandleStateMachine_scan:
  assumes "executeActionsInHierarchy h (CurrentState (fst m)) Handle m = Some m0"
  shows "HandleStateMachine h m =
     (case scan (transitions (fst m)) m0 of
        (None, m1) \<Rightarrow> Some (Ok m1) | (Some t, m1) \<Rightarrow> fires h t m1)"
  using assms fst_executeActionsInHierarchy [OF assms]
  by (simp add: HandleStateMachine_def HandleStateMachine_loop_scan)

lemma scan_selected:
  "scan ts m = (Some t, m') \<Longrightarrow> CurrentState (fst m) = Transition.CurrentState t"
proof (induction ts arbitrary: m)
  case Nil
  then show ?case by simp
next
  case (Cons u ts)
  obtain selected m1 where sel: "selects u m = (selected, m1)"
    by (cases "selects u m")
  show ?case
  proof (cases selected)
    case True
    with Cons.prems sel have "u = t" by simp
    moreover from True sel have "CurrentState (fst m) = Transition.CurrentState u"
      by (auto simp: selects_def split: if_splits)
    ultimately show ?thesis by simp
  next
    case False
    with Cons.prems sel have "scan ts m1 = (Some t, m')" by simp
    then have "CurrentState (fst m1) = Transition.CurrentState t" by (rule Cons.IH)
    with fst_selects [OF sel] show ?thesis by simp
  qed
qed

lemma newTransition_simps [simp]:
  "Transition.CurrentState (newTransition source event guards actions target) = source"
  "Event (newTransition source event guards actions target) = event"
  "Guards (newTransition source event guards actions target) = guards"
  "Actions (newTransition source event guards actions target) = actions"
  "NextState (newTransition source event guards actions target) = target"
  by (simp_all add: newTransition_def)

lemma nestedStates_handle:
  "executeActionsInHierarchy nestedStates (Some 2) Handle (sm, []) =
     Some (sm, [''Parent State 2 Handle'', ''Parent State Handle'', ''State 1 Handle''])"
proof -
  have "is_chain nestedStates (Some 2) [2, 1, 0]"
    by (simp add: newState_def)
  from executeActionsInHierarchy_chain [OF this] show ?thesis
    by (simp add: newState_def recordAction_def call_def)
qed





lemma test_effectless: "effectless p \<Longrightarrow> snd (test p m) = m"
  by (cases m) (simp add: test_def effectless_def split: prod.splits, metis snd_conv)

lemma HandleStateMachine_guards_effectless:
  "list_all effectless gs \<Longrightarrow> snd (HandleStateMachine_guards gs m) = m"
proof (induction gs arbitrary: m)
  case Nil
  then show ?case by simp
next
  case (Cons g gs)
  then have "snd (test g m) = m" and "list_all effectless gs"
    by (simp_all add: test_effectless)
  with Cons.IH show ?case
    by (cases "test g m") auto
qed

lemma selects_query: "query t \<Longrightarrow> snd (selects t m) = m"
proof -
  assume q: "query t"
  then have "snd (test (Event t) m) = m"
    by (simp add: query_def test_effectless)
  moreover from q have "snd (HandleStateMachine_guards (Guards t) m) = m"
    by (simp add: query_def HandleStateMachine_guards_effectless)
  ultimately show ?thesis
    by (cases "test (Event t) m") (auto simp: selects_def)
qed

lemma scan_query: "list_all query ts \<Longrightarrow> snd (scan ts m) = m"
proof (induction ts)
  case Nil
  then show ?case by simp
next
  case (Cons t ts)
  then have "snd (selects t m) = m" and "snd (scan ts m) = m"
    by (simp_all add: selects_query)
  then show ?case
    by (cases "selects t m") auto
qed

lemma effectless_always: "effectless (always b)"
  by (simp add: effectless_def always_def)

text \<open>
  C6. When the scan selects no transition, the tick returns the memory the scan has
  left: the engine object, and so the current state, is the one the tick started from,
  and the world is the work of the handle dispatch and of the predicates alone. When
  the predicates are effectless the tick leaves exactly the memory of the handle
  dispatch.
\<close>

theorem HandleStateMachine_no_match:
  assumes "executeActionsInHierarchy h (CurrentState (fst m)) Handle m = Some m0"
    and "scan (transitions (fst m)) m0 = (None, m1)"
  shows "HandleStateMachine h m = Some (Ok m1) \<and> fst m1 = fst m \<and>
         (list_all query (transitions (fst m)) \<longrightarrow> m1 = m0)"
proof -
  have "m1 = m0" if "list_all query (transitions (fst m))"
    using scan_query [OF that, of m0] assms(2) by simp
  with HandleStateMachine_scan [OF assms(1)] assms(2) fst_scan [OF assms(2)]
    fst_executeActionsInHierarchy [OF assms(1)]
  show ?thesis by simp
qed

theorem HandleStateMachine_no_match_witness:
  "scan (transitions (fst (noMatch, [])))
       (noMatch, [''Parent State 2 Handle'', ''Parent State Handle'', ''State 1 Handle'']) =
     (None, (noMatch, [''Parent State 2 Handle'', ''Parent State Handle'', ''State 1 Handle'',
                       ''event 0'', ''event 2'', ''guard 2''])) \<and>
   HandleStateMachine nestedStates (noMatch, []) =
     Some (Ok (noMatch, [''Parent State 2 Handle'', ''Parent State Handle'', ''State 1 Handle'',
                         ''event 0'', ''event 2'', ''guard 2''])) \<and>
   list_all query (transitions (fst (idle, []))) \<and>
   HandleStateMachine nestedStates (idle, []) =
     Some (Ok (idle, [''Parent State 2 Handle'', ''Parent State Handle'', ''State 1 Handle'']))"
proof -
  let ?w = "[''Parent State 2 Handle'', ''Parent State Handle'', ''State 1 Handle'']"
  have h: "executeActionsInHierarchy nestedStates (CurrentState (fst (noMatch, []))) Handle
      (noMatch, []) = Some (noMatch, ?w)"
    by (simp add: noMatch_def nestedStates_handle)
  have s: "scan (transitions (fst (noMatch, []))) (noMatch, ?w) =
      (None, (noMatch, ?w @ [''event 0'', ''event 2'', ''guard 2'']))"
    by (simp add: selects_def test_def noMatch_def recordPredicate_def)
  have h': "executeActionsInHierarchy nestedStates (CurrentState (fst (idle, []))) Handle
      (idle, []) = Some (idle, ?w)"
    by (simp add: idle_def nestedStates_handle)
  have s': "scan (transitions (fst (idle, []))) (idle, ?w) = (None, (idle, ?w))"
    by (simp add: selects_def test_def idle_def always_def)
  have q: "list_all query (transitions (fst (idle, [])))"
    by (simp add: idle_def query_def effectless_always)
  from HandleStateMachine_no_match [OF h s] HandleStateMachine_no_match [OF h' s'] s q show ?thesis
    by simp
qed

text \<open>
  C7. The guards of a transition are called in the order of declaration and the first
  guard that returns false ends the loop: when the guards before \<open>g\<close> all pass and \<open>g\<close>
  fails, the verdict is false, the memory is the one \<open>g\<close> leaves, and the scan goes on
  with the next transition from there. No guard declared after \<open>g\<close> is called.
\<close>

theorem HandleStateMachine_guards_short_circuit:
  assumes "CurrentState (fst m) = Transition.CurrentState t"
    and "test (Event t) m = (True, m0)"
    and "Guards t = pre @ g # post"
    and "HandleStateMachine_guards pre m0 = (True, m1)"
    and "test g m1 = (False, m2)"
  shows "HandleStateMachine_guards (Guards t) m0 = (False, m2) \<and>
         HandleStateMachine_loop h (t # rest) m = HandleStateMachine_loop h rest m2"
proof -
  have g: "HandleStateMachine_guards (Guards t) m0 = (False, m2)"
    using HandleStateMachine_guards_stop [OF assms(4,5)] assms(3) by simp
  with assms(1,2) show ?thesis by simp
qed

theorem HandleStateMachine_guards_short_circuit_witness:
  "test (recordPredicate ''guard 1'' False) (noMatch, [''event'', ''guard 0'']) =
     (False, (noMatch, [''event'', ''guard 0'', ''guard 1''])) \<and>
   HandleStateMachine_loop nestedStates
       [newTransition (Some 2) (recordPredicate ''event'' True)
          [recordPredicate ''guard 0'' True, recordPredicate ''guard 1'' False,
           recordPredicate ''guard 2'' True] [recordAction ''action''] (Some 3)]
       (noMatch, []) =
     Some (Ok (noMatch, [''event'', ''guard 0'', ''guard 1'']))"
proof -
  let ?t = "newTransition (Some 2) (recordPredicate ''event'' True)
      [recordPredicate ''guard 0'' True, recordPredicate ''guard 1'' False,
       recordPredicate ''guard 2'' True] [recordAction ''action''] (Some 3)"
  have c: "CurrentState (fst (noMatch, [])) = Transition.CurrentState ?t"
    by (simp add: noMatch_def)
  have e: "test (Event ?t) (noMatch, []) = (True, (noMatch, [''event'']))"
    by (simp add: test_def recordPredicate_def)
  have gs: "Guards ?t = [recordPredicate ''guard 0'' True] @ recordPredicate ''guard 1'' False #
      [recordPredicate ''guard 2'' True]"
    by simp
  have p: "HandleStateMachine_guards [recordPredicate ''guard 0'' True] (noMatch, [''event'']) =
      (True, (noMatch, [''event'', ''guard 0'']))"
    by (simp add: test_def recordPredicate_def)
  have g: "test (recordPredicate ''guard 1'' False) (noMatch, [''event'', ''guard 0'']) =
      (False, (noMatch, [''event'', ''guard 0'', ''guard 1'']))"
    by (simp add: test_def recordPredicate_def)
  from HandleStateMachine_guards_short_circuit [OF c e gs p g, of nestedStates "[]"] g show ?thesis
    by simp
qed

text \<open>
  C9. In a tick that selects the transition \<open>t\<close> (with acyclic chains of at most
  \<open>MaxStates\<close> states at both ends), the current-state pointer holds the source of
  \<open>t\<close> before each exit, transition or entry action and after the last of them,
  whatever the number \<open>k\<close> of actions that have run; the tick returns with the pointer
  set to the target of \<open>t\<close> and the world the complete sequence has left.
\<close>

theorem HandleStateMachine_current_state_last:
  assumes "executeActionsInHierarchy h (CurrentState (fst m)) Handle m = Some m0"
    and "scan (transitions (fst m)) m0 = (Some t, m1)"
    and "is_chain h (Transition.CurrentState t) xs" and "is_chain h (NextState t) ys"
    and "length xs \<le> MaxStates" and "length ys \<le> MaxStates"
    and "findCommonAncestor h (Transition.CurrentState t) (NextState t) = Some (Ok commonAncestor)"
  shows "HandleStateMachine h m =
           Some (Ok ((fst m)\<lparr>CurrentState := NextState t\<rparr>,
                     snd (executeActions (transitionSequence h t commonAncestor xs ys) m1))) \<and>
         (\<forall>k \<le> length (transitionSequence h t commonAncestor xs ys).
            CurrentState (fst (executeActions
              (take k (transitionSequence h t commonAncestor xs ys)) m1)) =
            Transition.CurrentState t)"
proof -
  have f0: "fst m0 = fst m"
    using assms(1) by (rule fst_executeActionsInHierarchy)
  have f1: "fst m1 = fst m0"
    using assms(2) by (rule fst_scan)
  have src: "CurrentState (fst m0) = Transition.CurrentState t"
    using assms(2) by (rule scan_selected)
  have "executeTransitionActions h t m1 =
      Some (Ok (executeActions (transitionSequence h t commonAncestor xs ys) m1))"
    unfolding transitionSequence_def using assms(3-7) by (rule executeTransitionActions_chain)
  with HandleStateMachine_scan [OF assms(1)] assms(2) f0 f1 src show ?thesis
    by (simp add: fires_def fst_executeActions)
qed

theorem HandleStateMachine_current_state_last_witness:
  "scan (transitions (fst (observing, [])))
       (observing, [''Parent State 2 Handle'', ''Parent State Handle'', ''State 1 Handle'']) =
     (Some (newTransition (Some 2) (always True) [] [recordCurrent] (Some 3)),
      (observing, [''Parent State 2 Handle'', ''Parent State Handle'', ''State 1 Handle''])) \<and>
   HandleStateMachine nestedStates (observing, []) =
     Some (Ok (observing\<lparr>CurrentState := Some 3\<rparr>,
               [''Parent State 2 Handle'', ''Parent State Handle'', ''State 1 Handle'',
                ''State 1 Exit'', ''Parent State Exit'', ''current 2'', ''State 2 Entry'']))"
proof -
  let ?t = "newTransition (Some 2) (always True) [] [recordCurrent] (Some 3)"
  let ?m0 = "(observing, [''Parent State 2 Handle'', ''Parent State Handle'', ''State 1 Handle''])"
  have h: "executeActionsInHierarchy nestedStates (CurrentState (fst (observing, []))) Handle
      (observing, []) = Some ?m0"
    by (simp add: observing_def nestedStates_handle)
  have s: "scan (transitions (fst (observing, []))) ?m0 = (Some ?t, ?m0)"
    by (simp add: selects_def test_def observing_def always_def)
  have c1: "is_chain nestedStates (Transition.CurrentState ?t) [2, 1, 0]"
    and c2: "is_chain nestedStates (NextState ?t) [3, 0]"
    by (simp_all add: newState_def)
  have l1: "length [2 :: addr, 1, 0] \<le> MaxStates" and l2: "length [3 :: addr, 0] \<le> MaxStates"
    by (simp_all add: MaxStates_def)
  have ca: "findCommonAncestor nestedStates (Transition.CurrentState ?t) (NextState ?t) =
      Some (Ok (Some 0))"
    using findCommonAncestor_chain [OF c1 c2 l1] by simp
  have f: "format_d 2 = ''2''"
    by (simp add: format_d_digit digit_def)
  from HandleStateMachine_current_state_last [OF h s c1 c2 l1 l2 ca] s show ?thesis
    by (simp add: transitionSequence_def newState_def recordAction_def
        recordCurrent_def call_def observing_def f)
qed

end
